theory Spec2Isabelle
  imports Main "HOL-Library.Multiset"
begin

section \<open>Data model of waitloop.go\<close>

text \<open>
  \<^verbatim>\<open>time.Time\<close> and \<^verbatim>\<open>time.Duration\<close> are integers counting nanoseconds;
  \<^verbatim>\<open>t.Add(d)\<close> is \<open>t + d\<close> and \<^verbatim>\<open>a.Before(b)\<close> is \<open>a < b\<close>.
  A \<^verbatim>\<open>chan Event\<close> is known by the number it got when \<^verbatim>\<open>make\<close> created it.
\<close>

type_synonym time = int
type_synonym duration = int
type_synonym chan = nat

text \<open>
  The values an \<^verbatim>\<open>error\<close> field can hold besides \<^verbatim>\<open>nil\<close>: the two package
  variables, and whatever error a caller puts into an event of its own.
\<close>

datatype err = ErrLoopTerminated | ErrTimedOut | OtherError string

text \<open>\<^verbatim>\<open>Data interface{}\<close> is a payload of any type, \<open>None\<close> when it is \<^verbatim>\<open>nil\<close>.\<close>

record 'd Event =
  Key :: string
  Data :: "'d option"
  Error :: "err option"

record listener =
  Key :: string
  Channel :: chan
  Expiration :: time

text \<open>
  The fields of \<^verbatim>\<open>Loop\<close>. A buffered channel is the list of the values it holds
  (oldest first) with its capacity beside it; \<open>terminateChan\<close> carries no data, so it is
  the number of signals buffered (capacity 1). Two more components describe the world
  around the loop: \<open>spawned\<close> lists, in the order of the \<^verbatim>\<open>go\<close> statements, the
  goroutines started to send one event on one channel and close it, and \<open>nextChan\<close>
  numbers the next channel that \<^verbatim>\<open>make(chan Event)\<close> creates.
\<close>

record 'd Loop =
  listenerMap :: "string \<rightharpoonup> listener list"
  terminated :: bool
  terminateChan :: nat
  incomingEvents :: "'d Event list"
  incomingEventsCap :: nat
  incomingListeners :: "listener list"
  incomingListenersCap :: nat
  defaultTTL :: duration
  cleanupTicker :: duration
  spawned :: "(chan \<times> 'd Event) list"
  nextChan :: chan

record LoopOptions =
  IncomingChannelSize :: nat
  ListenerChannelSize :: nat
  TTL :: duration
  CleanupInteval :: duration

text \<open>
  The run-time panic of an index expression: \<open>IndexOutOfRange i n\<close> is
  \<^verbatim>\<open>index out of range [i] with length n\<close>. A function that can panic returns
  \<open>Inl (p, l)\<close>, the panic with the state at that moment, or \<open>Inr l\<close>.
\<close>

datatype panic = IndexOutOfRange nat nat

type_synonym 'd outcome = "(panic \<times> 'd Loop) + 'd Loop"

definition and_then :: "'d outcome \<Rightarrow> ('d Loop \<Rightarrow> 'd outcome) \<Rightarrow> 'd outcome" where
  "and_then r f = (case r of Inl p \<Rightarrow> Inl p | Inr l \<Rightarrow> f l)"

text \<open>\<^verbatim>\<open>l.listenerMap[k]\<close>: the slice stored under \<open>k\<close>, the nil slice when there is none.\<close>

definition slice_at :: "'d Loop \<Rightarrow> string \<Rightarrow> listener list" where
  "slice_at l k = (case listenerMap l k of None \<Rightarrow> [] | Some s \<Rightarrow> s)"

definition go_send :: "chan \<Rightarrow> 'd Event \<Rightarrow> 'd Loop \<Rightarrow> 'd Loop" where
  "go_send c e l = l\<lparr>spawned := spawned l @ [(c, e)]\<rparr>"

section \<open>Construction and the public operations\<close>

definition hour :: duration where
  "hour = 3600000000000"

definition second :: duration where
  "second = 1000000000"

definition millisecond :: duration where
  "millisecond = 1000000"

definition NewCustom :: "LoopOptions option \<Rightarrow> 'd Loop" where
  "NewCustom options =
     (let opts = (case options of
                    None \<Rightarrow> \<lparr>IncomingChannelSize = 0, ListenerChannelSize = 0, TTL = 0, CleanupInteval = 0\<rparr>
                  | Some ps \<Rightarrow> ps);
          opts = (if IncomingChannelSize opts = 0 then opts\<lparr>IncomingChannelSize := 1024\<rparr> else opts);
          opts = (if ListenerChannelSize opts = 0 then opts\<lparr>ListenerChannelSize := 1024\<rparr> else opts);
          opts = (if TTL opts = 0 then opts\<lparr>TTL := 1 * hour\<rparr> else opts);
          opts = (if CleanupInteval opts = 0 then opts\<lparr>CleanupInteval := 5 * second\<rparr> else opts)
      in \<lparr>listenerMap = Map.empty,
          terminated = False,
          terminateChan = 0,
          incomingEvents = [],
          incomingEventsCap = IncomingChannelSize opts,
          incomingListeners = [],
          incomingListenersCap = ListenerChannelSize opts,
          defaultTTL = TTL opts,
          cleanupTicker = CleanupInteval opts,
          spawned = [],
          nextChan = 0\<rparr>)"

definition New :: "'d Loop" where
  "New = NewCustom None"

text \<open>
  \<^verbatim>\<open>WaitTTL\<close> at clock reading \<open>now\<close>. The result is \<open>None\<close> when the send on
  \<^verbatim>\<open>l.incomingListeners\<close> finds the buffer full, where the caller blocks; otherwise
  the channel returned and the new state.
\<close>

definition WaitTTL :: "time \<Rightarrow> string \<Rightarrow> duration \<Rightarrow> 'd Loop \<Rightarrow> (chan \<times> 'd Loop) option" where
  "WaitTTL now key ttl l =
     (let lis = \<lparr>Key = key, Channel = nextChan l, Expiration = now + defaultTTL l\<rparr>;
          l1 = l\<lparr>nextChan := Suc (nextChan l)\<rparr>
      in if \<not> terminated l1 then
           (if length (incomingListeners l1) < incomingListenersCap l1
            then Some (Channel lis, l1\<lparr>incomingListeners := incomingListeners l1 @ [lis]\<rparr>)
            else None)
         else Some (Channel lis,
                    go_send (Channel lis) \<lparr>Event.Key = key, Data = None, Error = Some ErrLoopTerminated\<rparr> l1))"

definition Wait :: "time \<Rightarrow> string \<Rightarrow> 'd Loop \<Rightarrow> (chan \<times> 'd Loop) option" where
  "Wait now key l = WaitTTL now key (defaultTTL l) l"

definition Send :: "'d Event \<Rightarrow> 'd Loop \<Rightarrow> 'd Loop option" where
  "Send e l =
     (if terminated l then Some l
      else if length (incomingEvents l) < incomingEventsCap l
      then Some (l\<lparr>incomingEvents := incomingEvents l @ [e]\<rparr>)
      else None)"

definition Terminate :: "'d Loop \<Rightarrow> 'd Loop option" where
  "Terminate l =
     (if terminateChan l < 1 then Some (l\<lparr>terminateChan := Suc (terminateChan l)\<rparr>) else None)"

section \<open>The handlers of the loop\<close>

definition registerListener :: "listener \<Rightarrow> 'd Loop \<Rightarrow> 'd Loop" where
  "registerListener lis l =
     (case listenerMap l (Key lis) of
        None \<Rightarrow> l\<lparr>listenerMap := (listenerMap l)(Key lis \<mapsto> [lis])\<rparr>
      | Some s \<Rightarrow> l\<lparr>listenerMap := (listenerMap l)(Key lis \<mapsto> s @ [lis])\<rparr>)"

text \<open>
  The loop over \<open>waiters\<close> of \<^verbatim>\<open>processEvent\<close>, and the handler. Every reading of
  the clock within one handler call is the same \<open>now\<close>.
\<close>

primrec notify :: "time \<Rightarrow> 'd Event \<Rightarrow> listener list \<Rightarrow> 'd Loop \<Rightarrow> 'd Loop" where
  "notify now e [] l = l"
| "notify now e (w # ws) l =
     (if Expiration w < now then notify now e ws l
      else notify now e ws (go_send (Channel w) e l))"

definition processEvent :: "time \<Rightarrow> 'd Event \<Rightarrow> 'd Loop \<Rightarrow> 'd Loop" where
  "processEvent now e l =
     (case listenerMap l (Event.Key e) of
        None \<Rightarrow> l
      | Some waiters \<Rightarrow> notify now e waiters (l\<lparr>listenerMap := (listenerMap l)(Event.Key e := None)\<rparr>))"

text \<open>
  \<^verbatim>\<open>cleanup\<close>. \<open>cleanup_step\<close> is the body of the inner loop at index \<open>i\<close>:
  the index expression \<^verbatim>\<open>l.listenerMap[k][i]\<close> reads the slice as it is now and
  panics beyond its length. \<open>cleanup_range\<close> runs the body over the indices that
  \<^verbatim>\<open>for i := range l.listenerMap[k]\<close> produces, fixed from the length the slice had
  when the loop began. \<open>cleanup_key\<close> is the body of the outer loop, and \<open>cleanup\<close>
  the outer loop over the keys \<open>ks\<close> in the order the map iteration yields them; a key
  no longer in the map is not produced. The goroutine started in a round sends the event
  with the key \<open>k\<close> of that round.
\<close>

definition cleanup_step :: "time \<Rightarrow> string \<Rightarrow> nat \<Rightarrow> 'd Loop \<Rightarrow> 'd outcome" where
  "cleanup_step now k i l =
     (let s = slice_at l k
      in if length s \<le> i then Inl (IndexOutOfRange i (length s), l)
         else if now < Expiration (s ! i) then Inr l
         else Inr ((go_send (Channel (s ! i)) \<lparr>Event.Key = k, Data = None, Error = Some ErrTimedOut\<rparr> l)
                     \<lparr>listenerMap := (listenerMap l)(k \<mapsto> take i s @ drop (i + 1) s)\<rparr>))"

primrec cleanup_range :: "time \<Rightarrow> string \<Rightarrow> nat list \<Rightarrow> 'd Loop \<Rightarrow> 'd outcome" where
  "cleanup_range now k [] l = Inr l"
| "cleanup_range now k (i # is) l = and_then (cleanup_step now k i l) (cleanup_range now k is)"

definition prune :: "string \<Rightarrow> 'd Loop \<Rightarrow> 'd Loop" where
  "prune k l = (if length (slice_at l k) = 0 then l\<lparr>listenerMap := (listenerMap l)(k := None)\<rparr> else l)"

definition cleanup_key :: "time \<Rightarrow> string \<Rightarrow> 'd Loop \<Rightarrow> 'd outcome" where
  "cleanup_key now k l =
     (if listenerMap l k = None then Inr l
      else and_then (cleanup_range now k [0 ..< length (slice_at l k)] l) (\<lambda>l'. Inr (prune k l')))"

primrec cleanup :: "time \<Rightarrow> string list \<Rightarrow> 'd Loop \<Rightarrow> 'd outcome" where
  "cleanup now [] l = Inr l"
| "cleanup now (k # ks) l = and_then (cleanup_key now k l) (cleanup now ks)"

text \<open>\<^verbatim>\<open>terminate\<close>, laid out as \<^verbatim>\<open>cleanup\<close> is.\<close>

definition terminate_step :: "string \<Rightarrow> nat \<Rightarrow> 'd Loop \<Rightarrow> 'd outcome" where
  "terminate_step k i l =
     (let s = slice_at l k
      in if length s \<le> i then Inl (IndexOutOfRange i (length s), l)
         else Inr ((go_send (Channel (s ! i)) \<lparr>Event.Key = k, Data = None, Error = Some ErrLoopTerminated\<rparr> l)
                     \<lparr>listenerMap := (listenerMap l)(k \<mapsto> take i s @ take (i + 1) s)\<rparr>))"

primrec terminate_range :: "string \<Rightarrow> nat list \<Rightarrow> 'd Loop \<Rightarrow> 'd outcome" where
  "terminate_range k [] l = Inr l"
| "terminate_range k (i # is) l = and_then (terminate_step k i l) (terminate_range k is)"

definition terminate_key :: "string \<Rightarrow> 'd Loop \<Rightarrow> 'd outcome" where
  "terminate_key k l =
     (if listenerMap l k = None then Inr l
      else and_then (terminate_range k [0 ..< length (slice_at l k)] l) (\<lambda>l'. Inr (prune k l')))"

primrec terminate :: "string list \<Rightarrow> 'd Loop \<Rightarrow> 'd outcome" where
  "terminate [] l = Inr l"
| "terminate (k # ks) l = and_then (terminate_key k l) (terminate ks)"

section \<open>The goroutine of the loop and its callers\<close>

text \<open>
  \<^verbatim>\<open>run\<close> is a step relation, since callers act between its iterations. \<open>reach st l\<close>:
  the state \<open>l\<close> can arise, with the goroutine of \<^verbatim>\<open>run\<close> in status \<open>st\<close>: still in
  its \<^verbatim>\<open>for\<close> loop, returned, or stopped by a panic (which ends the whole program).
  There is one rule for each call of the public operations, one for each case of the
  \<^verbatim>\<open>select\<close> (enabled when its channel has a value; the ticker can fire at any time),
  and one for leaving the loop and calling \<^verbatim>\<open>terminate\<close>. \<open>key_order ks l\<close> says that
  \<open>ks\<close> is an order in which a \<^verbatim>\<open>range\<close> over the map can yield its keys. Each
  call and each handler is one step, and a caller reads \<^verbatim>\<open>l.terminated\<close> as the loop
  last wrote it.
\<close>

datatype status = Looping | Returned | Crashed

definition key_order :: "string list \<Rightarrow> 'd Loop \<Rightarrow> bool" where
  "key_order ks l = (distinct ks \<and> set ks = dom (listenerMap l))"

inductive reach :: "status \<Rightarrow> 'd Loop \<Rightarrow> bool" where
  start: "reach Looping (NewCustom options)"
| call_WaitTTL:
    "reach st l \<Longrightarrow> st \<noteq> Crashed \<Longrightarrow> WaitTTL now key ttl l = Some (c, l') \<Longrightarrow> reach st l'"
| call_Send:
    "reach st l \<Longrightarrow> st \<noteq> Crashed \<Longrightarrow> Send e l = Some l' \<Longrightarrow> reach st l'"
| call_Terminate:
    "reach st l \<Longrightarrow> st \<noteq> Crashed \<Longrightarrow> Terminate l = Some l' \<Longrightarrow> reach st l'"
| run_terminateChan:
    "reach Looping l \<Longrightarrow> \<not> terminated l \<Longrightarrow> 0 < terminateChan l \<Longrightarrow>
     reach Looping (l\<lparr>terminateChan := terminateChan l - 1, terminated := True\<rparr>)"
| run_incomingListeners:
    "reach Looping l \<Longrightarrow> \<not> terminated l \<Longrightarrow> incomingListeners l = lis # q \<Longrightarrow>
     reach Looping (registerListener lis (l\<lparr>incomingListeners := q\<rparr>))"
| run_incomingEvents:
    "reach Looping l \<Longrightarrow> \<not> terminated l \<Longrightarrow> incomingEvents l = e # q \<Longrightarrow>
     reach Looping (processEvent now e (l\<lparr>incomingEvents := q\<rparr>))"
| run_cleanupTicker:
    "reach Looping l \<Longrightarrow> \<not> terminated l \<Longrightarrow> key_order ks l \<Longrightarrow>
     cleanup now ks l = Inr l' \<Longrightarrow> reach Looping l'"
| run_cleanupTicker_panic:
    "reach Looping l \<Longrightarrow> \<not> terminated l \<Longrightarrow> key_order ks l \<Longrightarrow>
     cleanup now ks l = Inl (p, l') \<Longrightarrow> reach Crashed l'"
| run_exit:
    "reach Looping l \<Longrightarrow> terminated l \<Longrightarrow> key_order ks l \<Longrightarrow>
     terminate ks l = Inr l' \<Longrightarrow> reach Returned l'"
| run_exit_panic:
    "reach Looping l \<Longrightarrow> terminated l \<Longrightarrow> key_order ks l \<Longrightarrow>
     terminate ks l = Inl (p, l') \<Longrightarrow> reach Crashed l'"

section \<open>Notions used in the statements and proofs\<close>

text \<open>The synthetic events, and the part of \<open>spawned\<close> that a handler added.\<close>

definition timed_out :: "string \<Rightarrow> 'd Event" where
  "timed_out k = \<lparr>Event.Key = k, Data = None, Error = Some ErrTimedOut\<rparr>"

definition loop_terminated :: "string \<Rightarrow> 'd Event" where
  "loop_terminated k = \<lparr>Event.Key = k, Data = None, Error = Some ErrLoopTerminated\<rparr>"

definition added :: "'d Loop \<Rightarrow> 'd Loop \<Rightarrow> (chan \<times> 'd Event) list" where
  "added l l' = drop (length (spawned l)) (spawned l')"

definition chans :: "listener list \<Rightarrow> chan set" where
  "chans s = Channel ` set s"

definition sent_on :: "'d Loop \<Rightarrow> chan set" where
  "sent_on l = fst ` set (spawned l)"

text \<open>
  \<open>moved k ev d s' l\<close>: the state \<open>l\<close> after the listeners \<open>d\<close> have each been sent \<open>ev\<close>
  and the slice of \<open>k\<close> has become \<open>s'\<close>.
\<close>

definition moved :: "string \<Rightarrow> 'd Event \<Rightarrow> listener list \<Rightarrow> listener list \<Rightarrow> 'd Loop \<Rightarrow> 'd Loop" where
  "moved k ev d s' l =
     l\<lparr>spawned := spawned l @ map (\<lambda>w. (Channel w, ev)) d,
       listenerMap := (listenerMap l)(k \<mapsto> s')\<rparr>"

text \<open>
  The invariant behind at-most-one delivery, for the keys in \<open>K\<close>: no channel has two
  senders, every channel in use has been created, and the listeners queued or stored
  under a key of \<open>K\<close> have channels of their own on which nothing has been sent.
\<close>

definition waiting_ok :: "'d Loop \<Rightarrow> listener list \<Rightarrow> bool" where
  "waiting_ok l s =
     (distinct (map Channel s) \<and> chans s \<subseteq> {..< nextChan l} \<and> chans s \<inter> sent_on l = {})"

definition inv :: "string set \<Rightarrow> 'd Loop \<Rightarrow> bool" where
  "inv K l =
     (distinct (map fst (spawned l)) \<and> sent_on l \<subseteq> {..< nextChan l} \<and>
      waiting_ok l (incomingListeners l) \<and>
      (\<forall>k \<in> K. \<forall>s. listenerMap l k = Some s \<longrightarrow>
         waiting_ok l s \<and> chans s \<inter> chans (incomingListeners l) = {}) \<and>
      (\<forall>k \<in> K. \<forall>k' \<in> K. \<forall>s s'. k \<noteq> k' \<and> listenerMap l k = Some s \<and> listenerMap l k' = Some s'
         \<longrightarrow> chans s \<inter> chans s' = {}))"

section \<open>The invariant is kept by every step\<close>

subsection \<open>Sending to listeners of one key\<close>

lemma sent_on_append:
  "spawned l' = spawned l @ map (\<lambda>w. (Channel w, ev w)) d \<Longrightarrow> sent_on l' = sent_on l \<union> chans d"
  by (simp add: sent_on_def chans_def image_Un image_image)

lemma waiting_ok_sub:
  assumes "waiting_ok l s" and "set s' \<subseteq> set s" and "distinct (map Channel s')"
    and "sent_on l' = sent_on l \<union> X" and "chans s' \<inter> X = {}" and "nextChan l' = nextChan l"
  shows "waiting_ok l' s'"
proof -
  have "chans s' \<subseteq> chans s" using assms(2) by (auto simp: chans_def)
  then show ?thesis
    using assms unfolding waiting_ok_def by (simp add: Int_Un_distrib) blast
qed

lemma inv_deliver:
  assumes I: "inv K l" and k: "k \<in> K" and s: "listenerMap l k = Some s"
    and d: "set d \<subseteq> set s" "distinct (map Channel d)"
    and sp: "spawned l' = spawned l @ map (\<lambda>w. (Channel w, ev w)) d"
    and m: "\<forall>k'. k' \<noteq> k \<longrightarrow> listenerMap l' k' = listenerMap l k'"
    and q: "incomingListeners l' = incomingListeners l" and n: "nextChan l' = nextChan l"
  shows "inv (K - {k}) l'"
proof -
  have so: "sent_on l' = sent_on l \<union> chans d"
    using sp by (rule sent_on_append)
  have cd: "chans d \<subseteq> chans s"
    using d(1) by (auto simp: chans_def)
  have ws: "waiting_ok l s" and sq: "chans s \<inter> chans (incomingListeners l) = {}"
    using I k s by (auto simp: inv_def)
  have dist: "distinct (map fst (spawned l))" and bound: "sent_on l \<subseteq> {..< nextChan l}"
    and wq: "waiting_ok l (incomingListeners l)"
    using I by (auto simp: inv_def)
  have others: "\<And>k' s'. k' \<in> K \<Longrightarrow> k' \<noteq> k \<Longrightarrow> listenerMap l k' = Some s' \<Longrightarrow>
      waiting_ok l s' \<and> chans s' \<inter> chans (incomingListeners l) = {} \<and> chans s' \<inter> chans s = {}"
    using I k s unfolding inv_def by blast
  have apart: "\<And>k' k'' s' s''. k' \<in> K \<Longrightarrow> k'' \<in> K \<Longrightarrow> k' \<noteq> k'' \<Longrightarrow> listenerMap l k' = Some s' \<Longrightarrow>
      listenerMap l k'' = Some s'' \<Longrightarrow> chans s' \<inter> chans s'' = {}"
    using I unfolding inv_def by blast
  have 1: "distinct (map fst (spawned l'))"
  proof -
    have "map fst (spawned l') = map fst (spawned l) @ map Channel d"
      by (simp add: sp comp_def)
    moreover have "set (map fst (spawned l)) \<inter> set (map Channel d) = {}"
      using ws cd by (auto simp: waiting_ok_def sent_on_def chans_def)
    ultimately show ?thesis using dist d(2) by simp
  qed
  have 2: "sent_on l' \<subseteq> {..< nextChan l'}"
    using bound ws cd by (auto simp: so n waiting_ok_def)
  have 3: "waiting_ok l' (incomingListeners l')"
    unfolding q
  proof (rule waiting_ok_sub [OF wq _ _ so _ n])
    show "distinct (map Channel (incomingListeners l))" using wq by (simp add: waiting_ok_def)
    show "chans (incomingListeners l) \<inter> chans d = {}" using sq cd by auto
  qed simp
  have 4: "waiting_ok l' s' \<and> chans s' \<inter> chans (incomingListeners l') = {}"
    if "k' \<in> K - {k}" "listenerMap l' k' = Some s'" for k' s'
  proof -
    from that m have s': "listenerMap l k' = Some s'" and kk: "k' \<in> K" "k' \<noteq> k" by auto
    note o = others [OF kk s']
    have "waiting_ok l' s'"
    proof (rule waiting_ok_sub [OF _ _ _ so _ n])
      show "waiting_ok l s'" using o by simp
      show "distinct (map Channel s')" using o by (simp add: waiting_ok_def)
      show "chans s' \<inter> chans d = {}" using o cd by auto
    qed simp
    then show ?thesis using o by (simp add: q)
  qed
  have 5: "chans s' \<inter> chans s'' = {}"
    if "k' \<in> K - {k}" "k'' \<in> K - {k}" "k' \<noteq> k''" "listenerMap l' k' = Some s'" "listenerMap l' k'' = Some s''"
    for k' k'' s' s''
    using that m apart [of k' k'' s' s''] by auto
  show ?thesis
    unfolding inv_def using 1 2 3 4 5 by blast
qed

lemma inv_restore:
  assumes I: "inv K l" and I': "inv (K - {k}) l'" and k: "k \<in> K" and s: "listenerMap l k = Some s"
    and sub: "set d \<union> set s' \<subseteq> set s" and dist: "distinct (map Channel (d @ s'))"
    and sp: "spawned l' = spawned l @ map (\<lambda>w. (Channel w, ev w)) d"
    and m: "\<forall>k'. k' \<noteq> k \<longrightarrow> listenerMap l' k' = listenerMap l k'"
    and mk: "listenerMap l' k = None \<or> listenerMap l' k = Some s'"
    and q: "incomingListeners l' = incomingListeners l" and n: "nextChan l' = nextChan l"
  shows "inv K l'"
proof -
  have so: "sent_on l' = sent_on l \<union> chans d"
    using sp by (rule sent_on_append)
  have ws: "waiting_ok l s" and sq: "chans s \<inter> chans (incomingListeners l) = {}"
    using I k s by (auto simp: inv_def)
  have cs: "chans s' \<subseteq> chans s" using sub by (auto simp: chans_def)
  have others: "\<And>k' t. k' \<in> K \<Longrightarrow> k' \<noteq> k \<Longrightarrow> listenerMap l k' = Some t \<Longrightarrow> chans t \<inter> chans s = {}"
    using I k s unfolding inv_def by blast
  have a: "waiting_ok l' s'"
  proof (rule waiting_ok_sub [OF ws _ _ so _ n])
    show "set s' \<subseteq> set s" using sub by simp
    show "distinct (map Channel s')" using dist by simp
    show "chans s' \<inter> chans d = {}" using dist by (auto simp: chans_def)
  qed
  have b: "chans s' \<inter> chans (incomingListeners l') = {}"
    using sq cs by (auto simp: q)
  have 4: "waiting_ok l' t \<and> chans t \<inter> chans (incomingListeners l') = {}"
    if "k' \<in> K" "listenerMap l' k' = Some t" for k' t
  proof (cases "k' = k")
    case True
    with that mk have "t = s'" by auto
    then show ?thesis using a b by simp
  next
    case False
    with that I' show ?thesis unfolding inv_def by blast
  qed
  have 5: "chans t \<inter> chans t' = {}"
    if "k' \<in> K" "k'' \<in> K" "k' \<noteq> k''" "listenerMap l' k' = Some t" "listenerMap l' k'' = Some t'"
    for k' k'' t t'
  proof -
    consider "k' = k" | "k'' = k" | "k' \<noteq> k" "k'' \<noteq> k" by blast
    then show ?thesis
    proof cases
      case 1
      with that mk have "t = s'" by auto
      moreover from 1 that m have "listenerMap l k'' = Some t'" by auto
      ultimately show ?thesis using others [of k'' t'] that 1 cs by auto
    next
      case 2
      with that mk have "t' = s'" by auto
      moreover from 2 that m have "listenerMap l k' = Some t" by auto
      ultimately show ?thesis using others [of k' t] that 2 cs by auto
    next
      case 3
      with that I' show ?thesis unfolding inv_def by blast
    qed
  qed
  show ?thesis
    unfolding inv_def using I' 4 5 by (auto simp: inv_def)
qed

lemma inv_mono: "inv K l \<Longrightarrow> K' \<subseteq> K \<Longrightarrow> inv K' l"
  unfolding inv_def by blast


lemma inv_Send: "inv K l \<Longrightarrow> Send e l = Some l' \<Longrightarrow> inv K l'"
proof -
  assume I: "inv K l" and S: "Send e l = Some l'"
  from S have "l' = l \<or> l' = l\<lparr>incomingEvents := incomingEvents l @ [e]\<rparr>"
    by (simp add: Send_def split: if_splits)
  then show ?thesis
    using I by (elim disjE) (simp_all add: inv_def waiting_ok_def sent_on_def)
qed

lemma inv_Terminate: "inv K l \<Longrightarrow> Terminate l = Some l' \<Longrightarrow> inv K l'"
proof -
  assume I: "inv K l" and S: "Terminate l = Some l'"
  from S have "l' = l\<lparr>terminateChan := Suc (terminateChan l)\<rparr>"
    by (simp add: Terminate_def split: if_splits)
  then show ?thesis
    using I by (simp add: inv_def waiting_ok_def sent_on_def)
qed

lemma inv_flag: "inv K l \<Longrightarrow> inv K (l\<lparr>terminateChan := n, terminated := b\<rparr>)"
  by (simp add: inv_def waiting_ok_def sent_on_def)


lemma waiting_ok_fresh_spawn:
  assumes "waiting_ok l s"
  shows "waiting_ok (l\<lparr>nextChan := Suc (nextChan l), spawned := spawned l @ [(nextChan l, ev)]\<rparr>) s"
proof -
  have "nextChan l \<notin> chans s" using assms by (auto simp: waiting_ok_def)
  then show ?thesis
    using assms by (auto simp: waiting_ok_def sent_on_def)
qed

lemma inv_fresh_spawn:
  assumes "inv K l"
  shows "inv K (l\<lparr>nextChan := Suc (nextChan l), spawned := spawned l @ [(nextChan l, ev)]\<rparr>)"
    (is "inv K ?l'")
proof -
  have w: "\<And>s. waiting_ok l s \<Longrightarrow> waiting_ok ?l' s"
    by (rule waiting_ok_fresh_spawn)
  have 1: "distinct (map fst (spawned ?l'))" and 2: "sent_on ?l' \<subseteq> {..< nextChan ?l'}"
    using assms by (auto simp: inv_def sent_on_def)
  have 3: "waiting_ok ?l' (incomingListeners ?l')"
    using assms w [of "incomingListeners l"] by (simp add: inv_def)
  have 4: "\<forall>k \<in> K. \<forall>s. listenerMap ?l' k = Some s \<longrightarrow>
         waiting_ok ?l' s \<and> chans s \<inter> chans (incomingListeners ?l') = {}"
    using assms w unfolding inv_def by simp
  have 5: "\<forall>k \<in> K. \<forall>k' \<in> K. \<forall>s s'. k \<noteq> k' \<and> listenerMap ?l' k = Some s \<and> listenerMap ?l' k' = Some s'
         \<longrightarrow> chans s \<inter> chans s' = {}"
    using assms unfolding inv_def by simp
  show ?thesis
    unfolding inv_def using 1 2 3 4 5 by blast
qed

lemma waiting_ok_fresh_queue:
  assumes "waiting_ok l s"
  shows "waiting_ok (l\<lparr>nextChan := Suc (nextChan l), incomingListeners := q\<rparr>) s"
  using assms by (auto simp: waiting_ok_def sent_on_def)

lemma inv_fresh_queue:
  assumes "inv K l" and c: "Channel lis = nextChan l"
  shows "inv K (l\<lparr>nextChan := Suc (nextChan l), incomingListeners := incomingListeners l @ [lis]\<rparr>)"
    (is "inv K ?l'")
proof -
  have w: "\<And>s. waiting_ok l s \<Longrightarrow> waiting_ok ?l' s"
    by (rule waiting_ok_fresh_queue)
  have fresh: "\<And>s. waiting_ok l s \<Longrightarrow> nextChan l \<notin> chans s"
    by (auto simp: waiting_ok_def)
  have cq: "chans (incomingListeners ?l') = insert (nextChan l) (chans (incomingListeners l))"
    by (simp add: chans_def c)
  have 1: "distinct (map fst (spawned ?l'))" and 2: "sent_on ?l' \<subseteq> {..< nextChan ?l'}"
    using assms by (auto simp: inv_def sent_on_def)
  have wq: "waiting_ok l (incomingListeners l)" using assms by (simp add: inv_def)
  have 3: "waiting_ok ?l' (incomingListeners ?l')"
  proof -
    have "nextChan l \<notin> sent_on l" using assms by (auto simp: inv_def)
    then show ?thesis
      using wq fresh [OF wq] by (auto simp: waiting_ok_def sent_on_def chans_def c)
  qed
  have 4: "waiting_ok ?l' s \<and> chans s \<inter> chans (incomingListeners ?l') = {}"
    if "k \<in> K" "listenerMap ?l' k = Some s" for k s
  proof -
    from that assms have a: "waiting_ok l s" "chans s \<inter> chans (incomingListeners l) = {}"
      unfolding inv_def by auto
    show ?thesis using w [OF a(1)] fresh [OF a(1)] a(2) unfolding cq by simp
  qed
  have 5: "\<forall>k \<in> K. \<forall>k' \<in> K. \<forall>s s'. k \<noteq> k' \<and> listenerMap ?l' k = Some s \<and> listenerMap ?l' k' = Some s'
         \<longrightarrow> chans s \<inter> chans s' = {}"
    using assms unfolding inv_def by simp
  show ?thesis
    unfolding inv_def using 1 2 3 4 5 by blast
qed

lemma inv_WaitTTL:
  assumes "inv K l" and "WaitTTL now key ttl l = Some (c, l')"
  shows "inv K l'"
proof (cases "terminated l")
  case True
  with assms(2) have l': "l' = l\<lparr>nextChan := Suc (nextChan l),
      spawned := spawned l @ [(nextChan l, loop_terminated key)]\<rparr>"
    by (auto simp: WaitTTL_def Let_def go_send_def loop_terminated_def)
  show ?thesis unfolding l' using assms(1) by (rule inv_fresh_spawn)
next
  case False
  with assms(2) have l': "l' = l\<lparr>nextChan := Suc (nextChan l),
      incomingListeners := incomingListeners l @ [\<lparr>Key = key, Channel = nextChan l, Expiration = now + defaultTTL l\<rparr>]\<rparr>"
    by (auto simp: WaitTTL_def Let_def split: if_splits)
  show ?thesis unfolding l' using assms(1) by (rule inv_fresh_queue) simp
qed

subsection \<open>Event processing and registration\<close>

lemma notify_eq:
  "notify now e ws l = l\<lparr>spawned := spawned l @ map (\<lambda>w. (Channel w, e)) (filter (\<lambda>w. \<not> Expiration w < now) ws)\<rparr>"
  by (induction ws arbitrary: l) (simp_all add: go_send_def)

lemma processEvent_Some:
  "listenerMap l (Event.Key e) = Some ws \<Longrightarrow>
   processEvent now e l =
     l\<lparr>listenerMap := (listenerMap l)(Event.Key e := None),
       spawned := spawned l @ map (\<lambda>w. (Channel w, e)) (filter (\<lambda>w. \<not> Expiration w < now) ws)\<rparr>"
  by (simp add: processEvent_def notify_eq)

lemma inv_queue_events: "inv K l \<Longrightarrow> inv K (l\<lparr>incomingEvents := q\<rparr>)"
  by (simp add: inv_def waiting_ok_def sent_on_def)

lemma inv_processEvent:
  assumes I: "inv UNIV l"
  shows "inv UNIV (processEvent now e l)"
proof (cases "listenerMap l (Event.Key e)")
  case None
  then show ?thesis using I by (simp add: processEvent_def)
next
  case (Some ws)
  let ?d = "filter (\<lambda>w. \<not> Expiration w < now) ws"
  let ?l' = "processEvent now e l"
  have eq: "?l' = l\<lparr>listenerMap := (listenerMap l)(Event.Key e := None),
       spawned := spawned l @ map (\<lambda>w. (Channel w, e)) ?d\<rparr>"
    using Some by (rule processEvent_Some)
  have dws: "distinct (map Channel ws)"
    using I Some by (auto simp: inv_def waiting_ok_def)
  have dd: "distinct (map Channel ?d)"
    using dws by (rule distinct_map_filter)
  have sp: "spawned ?l' = spawned l @ map (\<lambda>w. (Channel w, e)) ?d"
    and m: "\<forall>k'. k' \<noteq> Event.Key e \<longrightarrow> listenerMap ?l' k' = listenerMap l k'"
    and mk: "listenerMap ?l' (Event.Key e) = None \<or> listenerMap ?l' (Event.Key e) = Some []"
    and q: "incomingListeners ?l' = incomingListeners l" and n: "nextChan ?l' = nextChan l"
    by (simp_all add: eq)
  have "inv (UNIV - {Event.Key e}) ?l'"
    by (rule inv_deliver [OF I _ Some _ dd sp m q n]) auto
  then show ?thesis
    by (rule inv_restore [OF I _ _ Some _ _ sp m mk q n]) (use dd in auto)
qed



lemma inv_registerListener:
  assumes I: "inv UNIV l" and q: "incomingListeners l = lis # q"
  shows "inv UNIV (registerListener lis (l\<lparr>incomingListeners := q\<rparr>))" (is "inv UNIV ?l'")
proof -
  let ?k = "Key lis"
  let ?s = "slice_at l ?k"
  have m': "listenerMap ?l' = (listenerMap l)(?k \<mapsto> ?s @ [lis])"
    by (simp add: registerListener_def slice_at_def split: option.splits)
  have sp: "spawned ?l' = spawned l" and n: "nextChan ?l' = nextChan l"
    and q': "incomingListeners ?l' = q"
    by (simp_all add: registerListener_def split: option.splits)
  have wq: "waiting_ok l (lis # q)" using I q by (simp add: inv_def)
  have so: "sent_on ?l' = sent_on l" by (simp add: sent_on_def sp)
  have ws: "waiting_ok l ?s \<and> chans ?s \<inter> chans (lis # q) = {}"
  proof (cases "listenerMap l ?k")
    case None
    then show ?thesis by (simp add: slice_at_def waiting_ok_def chans_def)
  next
    case (Some s)
    with I q show ?thesis unfolding inv_def slice_at_def by simp
  qed
  have apart: "waiting_ok l t \<and> chans t \<inter> chans (lis # q) = {} \<and> chans t \<inter> chans ?s = {}"
    if "k' \<noteq> ?k" "listenerMap l k' = Some t" for k' t
  proof -
    have a: "waiting_ok l t \<and> chans t \<inter> chans (lis # q) = {}"
      using I q that(2) unfolding inv_def by simp
    have b: "chans t \<inter> chans ?s = {}"
    proof (cases "listenerMap l ?k")
      case None
      then show ?thesis by (simp add: slice_at_def chans_def)
    next
      case (Some s)
      with I that have "chans t \<inter> chans s = {}" unfolding inv_def by blast
      with Some show ?thesis by (simp add: slice_at_def)
    qed
    show ?thesis using a b by simp
  qed
  have 1: "distinct (map fst (spawned ?l'))" and 2: "sent_on ?l' \<subseteq> {..< nextChan ?l'}"
    using I by (simp_all add: sp so n inv_def)
  have 3: "waiting_ok ?l' (incomingListeners ?l')"
    using wq by (auto simp: waiting_ok_def so n q' chans_def)
  have new: "waiting_ok ?l' (?s @ [lis]) \<and> chans (?s @ [lis]) \<inter> chans q = {}"
    using ws wq by (auto simp: waiting_ok_def so n chans_def)
  have 4: "waiting_ok ?l' t \<and> chans t \<inter> chans (incomingListeners ?l') = {}"
    if "listenerMap ?l' k' = Some t" for k' t
  proof (cases "k' = ?k")
    case True
    with that have "t = ?s @ [lis]" by (simp add: m')
    then show ?thesis using new by (simp add: q')
  next
    case False
    with that have "listenerMap l k' = Some t" by (simp add: m')
    from apart [OF False this] show ?thesis
      by (auto simp: waiting_ok_def so n q' chans_def)
  qed
  have 5: "chans t \<inter> chans t' = {}"
    if "k' \<noteq> k''" "listenerMap ?l' k' = Some t" "listenerMap ?l' k'' = Some t'" for k' k'' t t'
  proof -
    have ne: "k' \<noteq> k''" by (rule that(1))
    consider "k' = ?k" "k'' \<noteq> ?k" | "k'' = ?k" "k' \<noteq> ?k" | "k' \<noteq> ?k" "k'' \<noteq> ?k"
      using ne by blast
    then show ?thesis
    proof cases
      case 1
      with that have "t = ?s @ [lis]" "listenerMap l k'' = Some t'" by (simp_all add: m')
      with apart [of k'' t'] 1 show ?thesis by (auto simp: chans_def)
    next
      case 2
      with that have "t' = ?s @ [lis]" "listenerMap l k' = Some t" by (simp_all add: m')
      with apart [of k' t] 2 show ?thesis by (auto simp: chans_def)
    next
      case 3
      with that have "listenerMap l k' = Some t" "listenerMap l k'' = Some t'" by (simp_all add: m')
      with I that(1) show ?thesis unfolding inv_def by blast
    qed
  qed
  show ?thesis
    unfolding inv_def using 1 2 3 4 5 by blast
qed

subsection \<open>The sweep\<close>

lemma moved_id: "listenerMap l k = Some s \<Longrightarrow> moved k ev [] s l = l"
  by (simp add: moved_def map_upd_triv)

lemma moved_moved: "moved k ev d2 s2 (moved k ev d1 s1 l) = moved k ev (d1 @ d2) s2 l"
  by (simp add: moved_def)

lemma listenerMap_moved: "listenerMap (moved k ev d s' l) k = Some s'"
  by (simp add: moved_def)

lemma cleanup_step_cases:
  assumes "listenerMap l k = Some s"
  shows "cleanup_step now k i l =
     (if length s \<le> i then Inl (IndexOutOfRange i (length s), l)
      else if now < Expiration (s ! i) then Inr l
      else Inr (moved k (timed_out k) [s ! i] (take i s @ drop (Suc i) s) l))"
  using assms by (simp add: cleanup_step_def slice_at_def moved_def go_send_def timed_out_def)

lemma cleanup_range_result:
  assumes "listenerMap l k = Some s"
    and "cleanup_range now k is l = Inr l' \<or> cleanup_range now k is l = Inl (p, l')"
  shows "\<exists>d s'. l' = moved k (timed_out k) d s' l \<and> mset d + mset s' = mset s"
  using assms
proof (induction "is" arbitrary: l s)
  case Nil
  then have "l' = moved k (timed_out k) [] s l" by (simp add: moved_id)
  then show ?case by force
next
  case (Cons i "is")
  note step = cleanup_step_cases [OF Cons.prems(1), of now i]
  consider (panic) "length s \<le> i" | (keep) "i < length s" "now < Expiration (s ! i)"
    | (drop) "i < length s" "\<not> now < Expiration (s ! i)" by linarith
  then show ?case
  proof cases
    case panic
    with Cons.prems(2) step have "l' = l"
      by (auto simp add: and_then_def)
    then have "l' = moved k (timed_out k) [] s l"
      using moved_id [OF Cons.prems(1)] by simp
    then show ?thesis by force
  next
    case keep
    with Cons.prems(2) step
    have "cleanup_range now k is l = Inr l' \<or> cleanup_range now k is l = Inl (p, l')"
      by (simp add: and_then_def)
    from Cons.IH [OF Cons.prems(1) this] show ?thesis .
  next
    case drop
    let ?s1 = "take i s @ drop (Suc i) s"
    let ?l1 = "moved k (timed_out k) [s ! i] ?s1 l"
    from drop Cons.prems(2) step
    have r: "cleanup_range now k is ?l1 = Inr l' \<or> cleanup_range now k is ?l1 = Inl (p, l')"
      by (simp add: and_then_def)
    have "listenerMap ?l1 k = Some ?s1" by (rule listenerMap_moved)
    from Cons.IH [OF this r] obtain d s'
      where l': "l' = moved k (timed_out k) d s' ?l1" and ms: "mset d + mset s' = mset ?s1"
      by blast
    have "mset s = mset (take i s @ s ! i # drop (Suc i) s)"
      using id_take_nth_drop [OF drop(1)] by simp
    then have "mset (s ! i # d) + mset s' = mset s"
      using ms by simp
    moreover have "l' = moved k (timed_out k) (s ! i # d) s' l"
      by (simp add: l' moved_moved)
    ultimately show ?thesis by blast
  qed
qed


lemma inv_moved:
  assumes I: "inv K l" and k: "k \<in> K" and s: "listenerMap l k = Some s"
    and ms: "mset d + mset s' = mset s"
    and l': "l' = moved k ev d s' l \<or>
             s' = [] \<and> l' = (moved k ev d s' l)\<lparr>listenerMap := (listenerMap l)(k := None)\<rparr>"
  shows "inv K l'"
proof -
  have "mset (map Channel (d @ s')) = mset (map Channel s)"
    using ms by (metis mset_append mset_map)
  moreover have "distinct (map Channel s)"
    using I k s by (auto simp: inv_def waiting_ok_def)
  ultimately have dist: "distinct (map Channel (d @ s'))"
    by (metis mset_eq_imp_distinct_iff)
  have "set (d @ s') = set s"
    using ms by (metis mset_append mset_eq_setD)
  then have sub: "set d \<union> set s' \<subseteq> set s" by simp
  have sp: "spawned l' = spawned l @ map (\<lambda>w. (Channel w, ev)) d"
    and m: "\<forall>k'. k' \<noteq> k \<longrightarrow> listenerMap l' k' = listenerMap l k'"
    and mk: "listenerMap l' k = None \<or> listenerMap l' k = Some s'"
    and q: "incomingListeners l' = incomingListeners l" and n: "nextChan l' = nextChan l"
    using l' by (auto simp: moved_def)
  have "inv (K - {k}) l'"
    by (rule inv_deliver [OF I k s _ _ sp m q n]) (use sub dist in auto)
  then show ?thesis
    by (rule inv_restore [OF I _ k s sub dist sp m mk q n])
qed

lemma cleanup_key_result:
  assumes s: "listenerMap l k = Some s"
    and r: "cleanup_key now k l = Inr l' \<or> cleanup_key now k l = Inl (p, l')"
  shows "\<exists>d s'. mset d + mset s' = mset s \<and>
           (l' = moved k (timed_out k) d s' l \<or>
            s' = [] \<and> l' = (moved k (timed_out k) d s' l)\<lparr>listenerMap := (listenerMap l)(k := None)\<rparr>)"
proof (cases "cleanup_range now k [0 ..< length (slice_at l k)] l")
  case (Inl a)
  with s r have "cleanup_range now k [0 ..< length (slice_at l k)] l = Inl (p, l')"
    by (simp add: cleanup_key_def and_then_def)
  from cleanup_range_result [OF s disjI2, OF this] show ?thesis by blast
next
  case (Inr l1)
  with s r have l': "l' = prune k l1"
    by (simp add: cleanup_key_def and_then_def)
  from cleanup_range_result [OF s disjI1, OF Inr] obtain d s'
    where l1: "l1 = moved k (timed_out k) d s' l" and ms: "mset d + mset s' = mset s"
    by blast
  have "l' = l1 \<or> s' = [] \<and> l' = l1\<lparr>listenerMap := (listenerMap l)(k := None)\<rparr>"
    unfolding l' l1 by (simp add: prune_def slice_at_def moved_def)
  with ms l1 show ?thesis by blast
qed

lemma inv_cleanup_key:
  assumes I: "inv UNIV l"
    and r: "cleanup_key now k l = Inr l' \<or> cleanup_key now k l = Inl (p, l')"
  shows "inv UNIV l'"
proof (cases "listenerMap l k")
  case None
  with r have "l' = l" by (simp add: cleanup_key_def)
  with I show ?thesis by simp
next
  case (Some s)
  from cleanup_key_result [OF Some r] obtain d s' where
    "mset d + mset s' = mset s"
    "l' = moved k (timed_out k) d s' l \<or>
       s' = [] \<and> l' = (moved k (timed_out k) d s' l)\<lparr>listenerMap := (listenerMap l)(k := None)\<rparr>"
    by blast
  then show ?thesis
    by (rule inv_moved [OF I UNIV_I Some])
qed

lemma inv_cleanup:
  assumes "inv UNIV l"
    and "cleanup now ks l = Inr l' \<or> cleanup now ks l = Inl (p, l')"
  shows "inv UNIV l'"
  using assms
proof (induction ks arbitrary: l)
  case Nil
  then show ?case by simp
next
  case (Cons k ks)
  show ?case
  proof (cases "cleanup_key now k l")
    case (Inl a)
    with Cons.prems(2) have "cleanup_key now k l = Inl (p, l')"
      by (simp add: and_then_def)
    then show ?thesis using inv_cleanup_key [OF Cons.prems(1)] by blast
  next
    case (Inr l1)
    then have "inv UNIV l1" using inv_cleanup_key [OF Cons.prems(1)] by blast
    moreover from Inr Cons.prems(2)
    have "cleanup now ks l1 = Inr l' \<or> cleanup now ks l1 = Inl (p, l')"
      by (simp add: and_then_def)
    ultimately show ?thesis by (rule Cons.IH)
  qed
qed

subsection \<open>The termination flush, and all reachable states\<close>

lemma terminate_key_none:
  "listenerMap l k = None \<Longrightarrow> terminate_key k l = Inr l"
  by (simp add: terminate_key_def)

lemma terminate_key_empty:
  "listenerMap l k = Some [] \<Longrightarrow>
   terminate_key k l = Inr (l\<lparr>listenerMap := (listenerMap l)(k := None)\<rparr>)"
  by (simp add: terminate_key_def slice_at_def and_then_def prune_def)

lemma terminate_key_one:
  "listenerMap l k = Some [w] \<Longrightarrow>
   terminate_key k l = Inr (moved k (loop_terminated k) [w] [w] l)"
  by (simp add: terminate_key_def slice_at_def and_then_def prune_def terminate_step_def
      go_send_def moved_def loop_terminated_def)

lemma terminate_key_more:
  assumes "listenerMap l k = Some (w # w' # ws)"
  shows "terminate_key k l = Inl (IndexOutOfRange 1 1, moved k (loop_terminated k) [w] [w] l)"
proof -
  have "[0 ..< Suc (Suc (length ws))] = 0 # Suc 0 # [Suc (Suc 0) ..< Suc (Suc (length ws))]"
    by (simp del: upt_Suc add: upt_conv_Cons)
  then show ?thesis
    using assms
    by (simp del: upt_Suc add: terminate_key_def slice_at_def and_then_def terminate_step_def
        go_send_def moved_def loop_terminated_def)
qed

lemma inv_terminate_key:
  assumes I: "inv K l" and k: "k \<in> K"
    and r: "terminate_key k l = Inr l' \<or> terminate_key k l = Inl (p, l')"
  shows "inv (K - {k}) l'"
proof (cases "listenerMap l k")
  case None
  with r have "l' = l" by (simp add: terminate_key_none)
  with I show ?thesis by (auto intro: inv_mono)
next
  case (Some s)
  have "\<exists>d s'. set d \<subseteq> set s \<and> length d \<le> 1 \<and>
      (l' = moved k (loop_terminated k) d s' l \<or>
       l' = l\<lparr>listenerMap := (listenerMap l)(k := None)\<rparr>)"
  proof (cases s)
    case Nil
    with Some r show ?thesis by (auto simp: terminate_key_empty)
  next
    case (Cons w s1)
    show ?thesis
    proof (cases s1)
      case Nil
      with Cons Some r have "l' = moved k (loop_terminated k) [w] [w] l"
        by (simp add: terminate_key_one)
      with Cons show ?thesis
        by (intro exI [of _ "[w]"]) simp
    next
      case (Cons w' ws)
      with \<open>s = w # s1\<close> Some r have "l' = moved k (loop_terminated k) [w] [w] l"
        by (simp add: terminate_key_more)
      with \<open>s = w # s1\<close> show ?thesis
        by (intro exI [of _ "[w]"]) simp
    qed
  qed
  then obtain d s' where d: "set d \<subseteq> set s" "length d \<le> 1"
    and l': "l' = moved k (loop_terminated k) d s' l \<or>
       l' = l\<lparr>listenerMap := (listenerMap l)(k := None)\<rparr>"
    by blast
  from l' show ?thesis
  proof
    assume e: "l' = moved k (loop_terminated k) d s' l"
    have dd: "distinct (map Channel d)"
      using d(2) by (cases d) auto
    show ?thesis
      by (rule inv_deliver [OF I k Some d(1) dd, where ev = "\<lambda>w. loop_terminated k"])
         (simp_all add: e moved_def)
  next
    assume e: "l' = l\<lparr>listenerMap := (listenerMap l)(k := None)\<rparr>"
    show ?thesis
      by (rule inv_deliver [OF I k Some, of "[]", where ev = "\<lambda>w. loop_terminated k"])
         (simp_all add: e)
  qed
qed

lemma inv_terminate:
  assumes "inv K l" and "distinct ks" and "set ks \<subseteq> K"
    and "terminate ks l = Inr l' \<or> terminate ks l = Inl (p, l')"
  shows "inv (K - set ks) l'"
  using assms
proof (induction ks arbitrary: l K)
  case Nil
  then show ?case by simp
next
  case (Cons k ks)
  from Cons.prems have k: "k \<in> K" and ks: "distinct ks" "set ks \<subseteq> K - {k}" by auto
  have eq: "K - set (k # ks) = K - {k} - set ks" by auto
  show ?case
  proof (cases "terminate_key k l")
    case (Inl a)
    with Cons.prems(4) have "terminate_key k l = Inl (p, l')"
      by (simp add: and_then_def)
    then have "inv (K - {k}) l'" using inv_terminate_key [OF Cons.prems(1) k] by blast
    then show ?thesis by (rule inv_mono) auto
  next
    case (Inr l1)
    then have "inv (K - {k}) l1" using inv_terminate_key [OF Cons.prems(1) k] by blast
    moreover from Inr Cons.prems(4)
    have "terminate ks l1 = Inr l' \<or> terminate ks l1 = Inl (p, l')"
      by (simp add: and_then_def)
    ultimately show ?thesis unfolding eq using ks by (intro Cons.IH)
  qed
qed

lemma inv_start: "inv K (NewCustom options)"
  by (simp add: NewCustom_def Let_def inv_def waiting_ok_def sent_on_def chans_def)

lemma reach_inv: "reach st l \<Longrightarrow> (st = Looping \<longrightarrow> inv UNIV l) \<and> inv {} l"
proof (induction rule: reach.induct)
  case (start options)
  show ?case by (simp add: inv_start)
next
  case (call_WaitTTL st l now key ttl c l')
  then show ?case by (blast intro: inv_WaitTTL)
next
  case (call_Send st l e l')
  then show ?case by (blast intro: inv_Send)
next
  case (call_Terminate st l l')
  then show ?case by (blast intro: inv_Terminate)
next
  case (run_terminateChan l)
  then show ?case by (simp add: inv_flag)
next
  case (run_incomingListeners l lis q)
  then have "inv UNIV (registerListener lis (l\<lparr>incomingListeners := q\<rparr>))"
    by (simp add: inv_registerListener)
  then show ?case by (auto intro: inv_mono)
next
  case (run_incomingEvents l e q now)
  then have "inv UNIV (l\<lparr>incomingEvents := q\<rparr>)" by (simp add: inv_queue_events)
  then have "inv UNIV (processEvent now e (l\<lparr>incomingEvents := q\<rparr>))"
    by (rule inv_processEvent)
  then show ?case by (auto intro: inv_mono)
next
  case (run_cleanupTicker l ks now l')
  then have "inv UNIV l'" using inv_cleanup [of l now ks l'] by simp
  then show ?case by (auto intro: inv_mono)
next
  case (run_cleanupTicker_panic l ks now p l')
  then have "inv UNIV l'" using inv_cleanup [of l now ks l' p] by simp
  then show ?case by (auto intro: inv_mono)
next
  case (run_exit l ks l')
  then have "inv (UNIV - set ks) l'"
    using inv_terminate [of UNIV l ks l'] by (simp add: key_order_def)
  then show ?case by (auto intro: inv_mono)
next
  case (run_exit_panic l ks p l')
  then have "inv (UNIV - set ks) l'"
    using inv_terminate [of UNIV l ks l' p] by (simp add: key_order_def)
  then show ?case by (auto intro: inv_mono)
qed

section \<open>What the handlers add, and states that do arise\<close>

lemma added_processEvent:
  "added l (processEvent now e l) =
     map (\<lambda>w. (Channel w, e)) (filter (\<lambda>w. \<not> Expiration w < now) (slice_at l (Event.Key e)))"
  by (cases "listenerMap l (Event.Key e)")
     (simp_all add: processEvent_Some added_def slice_at_def, simp add: processEvent_def)

lemma slice_at_registerListener:
  "slice_at (registerListener lis l) k = (if k = Key lis then slice_at l k @ [lis] else slice_at l k)"
  by (simp add: registerListener_def slice_at_def split: option.splits)

lemma slice_at_fold_registerListener_filter:
  "slice_at (fold registerListener ls l) k = slice_at l k @ filter (\<lambda>w. Key w = k) ls"
  by (induction ls arbitrary: l) (simp_all add: slice_at_registerListener)

lemma listenerMap_registerListener:
  "listenerMap (registerListener lis l) (Key lis) = Some (slice_at l (Key lis) @ [lis])"
  by (simp add: registerListener_def slice_at_def split: option.splits)

text \<open>
  Two states reached from \<^verbatim>\<open>New()\<close>: a wait on \<^verbatim>\<open>"amy"\<close> and one on \<^verbatim>\<open>"bob"\<close>
  registered; and that state after an event for \<^verbatim>\<open>"bob"\<close> has been sent and processed.
\<close>

lemma reach_amy_bob:
  "reach Looping ((New :: nat Loop)\<lparr>listenerMap := [''amy'' \<mapsto> [\<lparr>Key = ''amy'', Channel = 0, Expiration = 3600000000000\<rparr>],
       ''bob'' \<mapsto> [\<lparr>Key = ''bob'', Channel = 1, Expiration = 3600000000005\<rparr>]],
     nextChan := 2\<rparr>)"
proof -
  let ?b0 = "\<lparr>Key = ''amy'', Channel = 0, Expiration = 3600000000000\<rparr>"
  let ?b1 = "\<lparr>Key = ''bob'', Channel = 1, Expiration = 3600000000005\<rparr>"
  have r0: "reach Looping (New :: nat Loop)"
    unfolding New_def by (rule reach.start)
  have "WaitTTL 0 ''amy'' hour (New :: nat Loop) = Some (0, New\<lparr>incomingListeners := [?b0], nextChan := 1\<rparr>)"
    by (simp add: WaitTTL_def New_def NewCustom_def hour_def)
  from reach.call_WaitTTL [OF r0 _ this]
  have r1: "reach Looping ((New :: nat Loop)\<lparr>incomingListeners := [?b0], nextChan := 1\<rparr>)" by simp
  have "WaitTTL 5 ''bob'' hour ((New :: nat Loop)\<lparr>incomingListeners := [?b0], nextChan := 1\<rparr>)
      = Some (1, New\<lparr>incomingListeners := [?b0, ?b1], nextChan := 2\<rparr>)"
    by (simp add: WaitTTL_def New_def NewCustom_def hour_def)
  from reach.call_WaitTTL [OF r1 _ this]
  have r2: "reach Looping ((New :: nat Loop)\<lparr>incomingListeners := [?b0, ?b1], nextChan := 2\<rparr>)" by simp
  have "reach Looping (registerListener ?b0
      (((New :: nat Loop)\<lparr>incomingListeners := [?b0, ?b1], nextChan := 2\<rparr>)\<lparr>incomingListeners := [?b1]\<rparr>))"
    by (rule reach.run_incomingListeners [OF r2]) (simp_all add: New_def NewCustom_def)
  then have r3: "reach Looping ((New :: nat Loop)\<lparr>listenerMap := [''amy'' \<mapsto> [?b0]],
      incomingListeners := [?b1], nextChan := 2\<rparr>)"
    by (simp add: registerListener_def New_def NewCustom_def)
  have "reach Looping (registerListener ?b1
      (((New :: nat Loop)\<lparr>listenerMap := [''amy'' \<mapsto> [?b0]],
      incomingListeners := [?b1], nextChan := 2\<rparr>)\<lparr>incomingListeners := []\<rparr>))"
    by (rule reach.run_incomingListeners [OF r3]) (simp_all add: New_def NewCustom_def)
  then show ?thesis
    by (simp add: registerListener_def New_def NewCustom_def)
qed

lemma reach_amy_waiting:
  "reach Looping ((New :: nat Loop)\<lparr>listenerMap := [''amy'' \<mapsto> [\<lparr>Key = ''amy'', Channel = 0, Expiration = 3600000000000\<rparr>]],
     nextChan := 2,
     spawned := [(1, \<lparr>Event.Key = ''bob'', Data = Some 7, Error = None\<rparr>)]\<rparr>)"
proof -
  let ?a = "\<lparr>Key = ''amy'', Channel = 0, Expiration = 3600000000000\<rparr>"
  let ?b = "\<lparr>Key = ''bob'', Channel = 1, Expiration = 3600000000005\<rparr>"
  let ?e = "\<lparr>Event.Key = ''bob'', Data = Some (7::nat), Error = None\<rparr>"
  let ?l = "(New :: nat Loop)\<lparr>listenerMap := [''amy'' \<mapsto> [?a], ''bob'' \<mapsto> [?b]], nextChan := 2\<rparr>"
  have "Send ?e ?l = Some (?l\<lparr>incomingEvents := [?e]\<rparr>)"
    by (simp add: Send_def New_def NewCustom_def)
  from reach.call_Send [OF reach_amy_bob _ this]
  have r: "reach Looping (?l\<lparr>incomingEvents := [?e]\<rparr>)" by simp
  have m: "[''amy'' \<mapsto> [?a]](''bob'' := None) = [''amy'' \<mapsto> [?a]]"
    by (rule ext) simp
  have "reach Looping (processEvent 10 ?e ((?l\<lparr>incomingEvents := [?e]\<rparr>)\<lparr>incomingEvents := []\<rparr>))"
    by (rule reach.run_incomingEvents [OF r]) (simp_all add: New_def NewCustom_def)
  then show ?thesis
    by (simp add: processEvent_def go_send_def m New_def NewCustom_def)
qed

text \<open>
  \<^verbatim>\<open>terminated\<close> is never reset: the flush keeps it, and it holds in every state after
  \<^verbatim>\<open>run\<close> has returned.
\<close>

lemma terminated_terminate_key:
  assumes "terminate_key k l = Inr l' \<or> terminate_key k l = Inl (p, l')"
  shows "terminated l' = terminated l"
proof (cases "listenerMap l k")
  case None
  with assms show ?thesis by (simp add: terminate_key_none)
next
  case (Some s)
  show ?thesis
  proof (cases s)
    case Nil
    with Some assms show ?thesis by (auto simp: terminate_key_empty)
  next
    case (Cons w s1)
    with Some assms show ?thesis
      by (cases s1) (auto simp: terminate_key_one terminate_key_more moved_def)
  qed
qed

lemma terminated_terminate:
  "terminate ks l = Inr l' \<or> terminate ks l = Inl (p, l') \<Longrightarrow> terminated l' = terminated l"
proof (induction ks arbitrary: l)
  case Nil
  then show ?case by simp
next
  case (Cons k ks)
  show ?case
  proof (cases "terminate_key k l")
    case (Inl a)
    with Cons.prems have "terminate_key k l = Inl (p, l')" by (simp add: and_then_def)
    then show ?thesis using terminated_terminate_key by blast
  next
    case (Inr l1)
    with Cons.prems have "terminate ks l1 = Inr l' \<or> terminate ks l1 = Inl (p, l')"
      by (simp add: and_then_def)
    then have "terminated l' = terminated l1" by (rule Cons.IH)
    moreover have "terminated l1 = terminated l" using Inr terminated_terminate_key by blast
    ultimately show ?thesis by simp
  qed
qed

lemma reach_Returned_terminated: "reach st l \<Longrightarrow> st = Returned \<Longrightarrow> terminated l"
proof (induction rule: reach.induct)
  case (call_WaitTTL st l now key ttl c l')
  then show ?case by (auto simp: WaitTTL_def Let_def go_send_def split: if_splits)
next
  case (call_Send st l e l')
  then show ?case by (auto simp: Send_def split: if_splits)
next
  case (call_Terminate st l l')
  then show ?case by (auto simp: Terminate_def split: if_splits)
next
  case (run_exit l ks l')
  then show ?case using terminated_terminate [of ks l l'] by simp
qed simp_all

section \<open>Properties of the dispatcher\<close>

subsection \<open>Where the loops that remove while iterating go wrong\<close>

text \<open>
  C1. On the termination signal the flush should send a termination event
  (error = loop-terminated) exactly once to every listener in the map, complete every
  endpoint and leave the map empty, also when a key holds two or more listeners.
  \<^verbatim>\<open>terminate\<close> does not: with two listeners under \<^verbatim>\<open>"bob"\<close> it notifies the first,
  replaces the slice of length 2 by \<^verbatim>\<open>append(s[:0], s[:1]...)\<close> of length 1, and the index
  expression of the next round panics; the second listener is never notified and the map
  still holds the first.
\<close>

theorem terminate_two_listeners:
  "terminate [''bob'']
     ((New :: unit Loop)\<lparr>listenerMap := [''bob'' \<mapsto>
         [\<lparr>Key = ''bob'', Channel = 0, Expiration = 100\<rparr>, \<lparr>Key = ''bob'', Channel = 1, Expiration = 100\<rparr>]],
       terminated := True, nextChan := 2\<rparr>)
   = Inl (IndexOutOfRange 1 1,
      (New :: unit Loop)\<lparr>listenerMap := [''bob'' \<mapsto> [\<lparr>Key = ''bob'', Channel = 0, Expiration = 100\<rparr>]],
       terminated := True, nextChan := 2,
       spawned := [(0, \<lparr>Event.Key = ''bob'', Data = None, Error = Some ErrLoopTerminated\<rparr>)]\<rparr>)"
  by (simp add: New_def NewCustom_def terminate_key_def terminate_step_def slice_at_def
      and_then_def go_send_def prune_def upt_rec)

text \<open>
  C2. \<^verbatim>\<open>WaitTTL(key, ttl)\<close> should set the expiration of the listener to the time of
  registration plus \<open>ttl\<close>, overriding the configured default. The code adds
  \<^verbatim>\<open>l.defaultTTL\<close> and never reads \<open>ttl\<close>: a wait of one millisecond on a loop made
  by \<^verbatim>\<open>New()\<close> at time 0 queues a listener that expires after one hour.
\<close>

theorem WaitTTL_ignores_ttl:
  "WaitTTL 0 ''bob'' millisecond (New :: unit Loop)
   = Some (0, New\<lparr>incomingListeners := [\<lparr>Key = ''bob'', Channel = 0, Expiration = 0 + 1 * hour\<rparr>],
                  nextChan := 1\<rparr>)
   \<and> (0 + 1 * hour \<noteq> 0 + millisecond)"
  by (simp add: WaitTTL_def New_def NewCustom_def hour_def millisecond_def)

text \<open>
  C3. A sweep should remove every listener whose expiration has passed, and only those,
  send each a timeout event once, and prune the keys left empty, also when expired
  listeners sit at consecutive positions. \<^verbatim>\<open>cleanup\<close> does not: with two expired
  listeners under \<^verbatim>\<open>"bob"\<close> at time 200 it times out the first, the second moves to
  index 0, and the round for index 1 panics; the second listener stays in the map and is
  never notified.
\<close>

theorem cleanup_two_expired:
  "cleanup 200 [''bob'']
     ((New :: unit Loop)\<lparr>listenerMap := [''bob'' \<mapsto>
         [\<lparr>Key = ''bob'', Channel = 0, Expiration = 100\<rparr>, \<lparr>Key = ''bob'', Channel = 1, Expiration = 100\<rparr>]],
       nextChan := 2\<rparr>)
   = Inl (IndexOutOfRange 1 1,
      (New :: unit Loop)\<lparr>listenerMap := [''bob'' \<mapsto> [\<lparr>Key = ''bob'', Channel = 1, Expiration = 100\<rparr>]],
       nextChan := 2,
       spawned := [(0, \<lparr>Event.Key = ''bob'', Data = None, Error = Some ErrTimedOut\<rparr>)]\<rparr>)"
  by (simp add: New_def NewCustom_def cleanup_key_def cleanup_step_def slice_at_def
      and_then_def go_send_def prune_def upt_rec)

text \<open>
  C4. The sweep and the flush should index the slices of the map within bounds only, in
  every state. They do not: the bound of \<^verbatim>\<open>for i := range l.listenerMap[k]\<close> is the
  length the slice had when the loop began, while the body indexes the slice as
  shortened since. With three listeners under \<^verbatim>\<open>"amy"\<close>, the first expired, the sweep
  at time 200 panics at index 2 of a slice of length 2, and the flush at index 1 of a slice
  of length 1.
\<close>

theorem remove_while_iterating_out_of_range:
  "cleanup 200 [''amy'']
     ((New :: unit Loop)\<lparr>listenerMap := [''amy'' \<mapsto>
         [\<lparr>Key = ''amy'', Channel = 0, Expiration = 100\<rparr>, \<lparr>Key = ''amy'', Channel = 1, Expiration = 300\<rparr>,
          \<lparr>Key = ''amy'', Channel = 2, Expiration = 300\<rparr>]],
       nextChan := 3\<rparr>)
   = Inl (IndexOutOfRange 2 2,
      (New :: unit Loop)\<lparr>listenerMap := [''amy'' \<mapsto>
         [\<lparr>Key = ''amy'', Channel = 1, Expiration = 300\<rparr>, \<lparr>Key = ''amy'', Channel = 2, Expiration = 300\<rparr>]],
       nextChan := 3,
       spawned := [(0, \<lparr>Event.Key = ''amy'', Data = None, Error = Some ErrTimedOut\<rparr>)]\<rparr>)
   \<and> terminate [''amy'']
     ((New :: unit Loop)\<lparr>listenerMap := [''amy'' \<mapsto>
         [\<lparr>Key = ''amy'', Channel = 0, Expiration = 100\<rparr>, \<lparr>Key = ''amy'', Channel = 1, Expiration = 300\<rparr>,
          \<lparr>Key = ''amy'', Channel = 2, Expiration = 300\<rparr>]],
       terminated := True, nextChan := 3\<rparr>)
   = Inl (IndexOutOfRange 1 1,
      (New :: unit Loop)\<lparr>listenerMap := [''amy'' \<mapsto> [\<lparr>Key = ''amy'', Channel = 0, Expiration = 100\<rparr>]],
       terminated := True, nextChan := 3,
       spawned := [(0, \<lparr>Event.Key = ''amy'', Data = None, Error = Some ErrLoopTerminated\<rparr>)]\<rparr>)"
  by (simp add: New_def NewCustom_def cleanup_key_def cleanup_step_def terminate_key_def terminate_step_def
      slice_at_def and_then_def go_send_def prune_def upt_rec)

subsection \<open>Event processing\<close>

text \<open>
  C10. Processing an event whose key has no entry in the map changes nothing: the event
  is dropped, nothing is sent to any listener, and the map is as it was.
\<close>

theorem processEvent_unknown_key_noop:
  assumes "listenerMap l (Event.Key e) = None"
  shows "processEvent now e l = l"
  using assms by (simp add: processEvent_def)

theorem processEvent_unknown_key_noop_witness:
  "listenerMap ((New :: nat Loop)\<lparr>listenerMap := [''amy'' \<mapsto> [\<lparr>Key = ''amy'', Channel = 0, Expiration = 100\<rparr>]], nextChan := 1\<rparr>)
      (Event.Key \<lparr>Event.Key = ''bob'', Data = Some (7::nat), Error = None\<rparr>) = None
   \<and> processEvent 0 \<lparr>Event.Key = ''bob'', Data = Some (7::nat), Error = None\<rparr>
        ((New :: nat Loop)\<lparr>listenerMap := [''amy'' \<mapsto> [\<lparr>Key = ''amy'', Channel = 0, Expiration = 100\<rparr>]], nextChan := 1\<rparr>)
      = (New :: nat Loop)\<lparr>listenerMap := [''amy'' \<mapsto> [\<lparr>Key = ''amy'', Channel = 0, Expiration = 100\<rparr>]], nextChan := 1\<rparr>"
proof -
  have h: "listenerMap ((New :: nat Loop)\<lparr>listenerMap := [''amy'' \<mapsto> [\<lparr>Key = ''amy'', Channel = 0, Expiration = 100\<rparr>]], nextChan := 1\<rparr>)
      (Event.Key \<lparr>Event.Key = ''bob'', Data = Some (7::nat), Error = None\<rparr>) = None"
    by simp
  show ?thesis using h processEvent_unknown_key_noop [OF h, of 0] by simp
qed



text \<open>
  C9. Registration appends the listener at the end of the slice of its key and leaves
  every other slice as it was. So after the registrations \<open>ls\<close> have been processed
  in that order, whatever their keys, the slice of each key \<open>k\<close> is what it was followed
  by the listeners of \<open>ls\<close> with key \<open>k\<close>, in the order of \<open>ls\<close>; and processing an
  event starts the sends to the unexpired listeners of its key in that order.
\<close>

theorem fifo_per_key:
  "listenerMap (registerListener lis l) (Key lis) = Some (slice_at l (Key lis) @ [lis])
   \<and> slice_at (registerListener lis l) k = slice_at l k @ filter (\<lambda>w. Key w = k) [lis]
   \<and> slice_at (fold registerListener ls l) k = slice_at l k @ filter (\<lambda>w. Key w = k) ls
   \<and> added (fold registerListener ls l) (processEvent now e (fold registerListener ls l)) =
        map (\<lambda>w. (Channel w, e))
          (filter (\<lambda>w. \<not> Expiration w < now)
             (slice_at l (Event.Key e) @ filter (\<lambda>w. Key w = Event.Key e) ls))"
  by (simp add: listenerMap_registerListener slice_at_registerListener
      slice_at_fold_registerListener_filter added_processEvent)

theorem fifo_per_key_witness:
  "slice_at (fold registerListener
        [\<lparr>Key = ''amy'', Channel = 0, Expiration = 300\<rparr>, \<lparr>Key = ''bob'', Channel = 1, Expiration = 300\<rparr>,
         \<lparr>Key = ''amy'', Channel = 2, Expiration = 300\<rparr>] (New :: nat Loop)) ''amy''
      = [\<lparr>Key = ''amy'', Channel = 0, Expiration = 300\<rparr>, \<lparr>Key = ''amy'', Channel = 2, Expiration = 300\<rparr>]
   \<and> slice_at (fold registerListener
        [\<lparr>Key = ''amy'', Channel = 0, Expiration = 300\<rparr>, \<lparr>Key = ''bob'', Channel = 1, Expiration = 300\<rparr>,
         \<lparr>Key = ''amy'', Channel = 2, Expiration = 300\<rparr>] (New :: nat Loop)) ''bob''
      = [\<lparr>Key = ''bob'', Channel = 1, Expiration = 300\<rparr>]
   \<and> added (fold registerListener
        [\<lparr>Key = ''amy'', Channel = 0, Expiration = 300\<rparr>, \<lparr>Key = ''bob'', Channel = 1, Expiration = 300\<rparr>,
         \<lparr>Key = ''amy'', Channel = 2, Expiration = 300\<rparr>] (New :: nat Loop))
       (processEvent 200 \<lparr>Event.Key = ''amy'', Data = Some (7::nat), Error = None\<rparr>
         (fold registerListener
           [\<lparr>Key = ''amy'', Channel = 0, Expiration = 300\<rparr>, \<lparr>Key = ''bob'', Channel = 1, Expiration = 300\<rparr>,
            \<lparr>Key = ''amy'', Channel = 2, Expiration = 300\<rparr>] (New :: nat Loop)))
      = [(0, \<lparr>Event.Key = ''amy'', Data = Some (7::nat), Error = None\<rparr>),
         (2, \<lparr>Event.Key = ''amy'', Data = Some (7::nat), Error = None\<rparr>)]"
proof -
  let ?ls = "[\<lparr>Key = ''amy'', Channel = 0, Expiration = 300\<rparr>, \<lparr>Key = ''bob'', Channel = 1, Expiration = 300\<rparr>,
         \<lparr>Key = ''amy'', Channel = 2, Expiration = 300\<rparr>]"
  let ?e = "\<lparr>Event.Key = ''amy'', Data = Some (7::nat), Error = None\<rparr>"
  have s: "slice_at (New :: nat Loop) k = []" for k
    by (simp add: slice_at_def New_def NewCustom_def)
  show ?thesis
    using fifo_per_key [of _ "New :: nat Loop" "''amy''" ?ls 200 ?e]
          fifo_per_key [of _ "New :: nat Loop" "''bob''" ?ls 200 ?e]
    by (simp add: s)
qed

text \<open>
  C8. Key isolation, in every state of the running loop: processing an event with key
  \<open>K\<close> leaves the slice of any other key \<open>K'\<close> and the queue of registrations as they
  were, and starts no send on the channel of a listener stored under \<open>K'\<close> or still
  queued; every send it starts goes to a channel of the slice of \<open>K\<close>. The handler runs
  on the state with the event taken off the queue, \<open>l\<lparr>incomingEvents := q\<rparr>\<close>.
\<close>

theorem key_isolation:
  assumes "reach Looping l" and "K' \<noteq> Event.Key e"
  shows "listenerMap (processEvent now e (l\<lparr>incomingEvents := q\<rparr>)) K' = listenerMap l K'
       \<and> (\<forall>w \<in> set (slice_at l K').
            Channel w \<notin> fst ` set (added (l\<lparr>incomingEvents := q\<rparr>) (processEvent now e (l\<lparr>incomingEvents := q\<rparr>))))
       \<and> incomingListeners (processEvent now e (l\<lparr>incomingEvents := q\<rparr>)) = incomingListeners l
       \<and> (\<forall>w \<in> set (incomingListeners l).
            Channel w \<notin> fst ` set (added (l\<lparr>incomingEvents := q\<rparr>) (processEvent now e (l\<lparr>incomingEvents := q\<rparr>))))
       \<and> fst ` set (added (l\<lparr>incomingEvents := q\<rparr>) (processEvent now e (l\<lparr>incomingEvents := q\<rparr>)))
            \<subseteq> chans (slice_at l (Event.Key e))"
proof -
  let ?l0 = "l\<lparr>incomingEvents := q\<rparr>"
  let ?new = "fst ` set (added ?l0 (processEvent now e ?l0))"
  have I: "inv UNIV l" using reach_inv [OF assms(1)] by simp
  have sl: "slice_at ?l0 = slice_at l" by (simp add: slice_at_def fun_eq_iff)
  have sub: "?new \<subseteq> chans (slice_at l (Event.Key e))"
    by (auto simp: added_processEvent sl chans_def)
  have 1: "listenerMap (processEvent now e ?l0) K' = listenerMap l K'"
    using assms(2) by (simp add: processEvent_def notify_eq split: option.splits)
  have 3: "incomingListeners (processEvent now e ?l0) = incomingListeners l"
    by (simp add: processEvent_def notify_eq split: option.splits)
  have 2: "Channel w \<notin> ?new" if "w \<in> set (slice_at l K')" for w
  proof (cases "listenerMap l K'")
    case None
    with that show ?thesis by (simp add: slice_at_def)
  next
    case (Some s)
    show ?thesis
    proof (cases "listenerMap l (Event.Key e)")
      case None
      then show ?thesis using sub by (simp add: slice_at_def chans_def)
    next
      case (Some t)
      with \<open>listenerMap l K' = Some s\<close> I assms(2) have "chans s \<inter> chans t = {}"
        unfolding inv_def by blast
      moreover have "Channel w \<in> chans s"
        using that \<open>listenerMap l K' = Some s\<close> by (simp add: slice_at_def chans_def)
      ultimately show ?thesis using sub Some by (auto simp: slice_at_def)
    qed
  qed
  have 4: "Channel w \<notin> ?new" if "w \<in> set (incomingListeners l)" for w
  proof (cases "listenerMap l (Event.Key e)")
    case None
    then show ?thesis using sub by (simp add: slice_at_def chans_def)
  next
    case (Some t)
    with I have "chans t \<inter> chans (incomingListeners l) = {}"
      unfolding inv_def by blast
    moreover have "Channel w \<in> chans (incomingListeners l)"
      using that by (simp add: chans_def)
    ultimately show ?thesis using sub Some by (auto simp: slice_at_def)
  qed
  show ?thesis using 1 2 3 4 sub by blast
qed

theorem key_isolation_witness:
  "reach Looping ((New :: nat Loop)\<lparr>listenerMap := [''amy'' \<mapsto> [\<lparr>Key = ''amy'', Channel = 0, Expiration = 3600000000000\<rparr>],
       ''bob'' \<mapsto> [\<lparr>Key = ''bob'', Channel = 1, Expiration = 3600000000005\<rparr>]],
     nextChan := 2\<rparr>)
   \<and> ''amy'' \<noteq> Event.Key \<lparr>Event.Key = ''bob'', Data = Some (7::nat), Error = None\<rparr>
   \<and> listenerMap (processEvent 10 \<lparr>Event.Key = ''bob'', Data = Some (7::nat), Error = None\<rparr>
        ((New :: nat Loop)\<lparr>listenerMap := [''amy'' \<mapsto> [\<lparr>Key = ''amy'', Channel = 0, Expiration = 3600000000000\<rparr>],
           ''bob'' \<mapsto> [\<lparr>Key = ''bob'', Channel = 1, Expiration = 3600000000005\<rparr>]],
         nextChan := 2, incomingEvents := []\<rparr>)) ''amy''
      = Some [\<lparr>Key = ''amy'', Channel = 0, Expiration = 3600000000000\<rparr>]
   \<and> 0 \<notin> fst ` set (added
        ((New :: nat Loop)\<lparr>listenerMap := [''amy'' \<mapsto> [\<lparr>Key = ''amy'', Channel = 0, Expiration = 3600000000000\<rparr>],
           ''bob'' \<mapsto> [\<lparr>Key = ''bob'', Channel = 1, Expiration = 3600000000005\<rparr>]],
         nextChan := 2, incomingEvents := []\<rparr>)
        (processEvent 10 \<lparr>Event.Key = ''bob'', Data = Some (7::nat), Error = None\<rparr>
          ((New :: nat Loop)\<lparr>listenerMap := [''amy'' \<mapsto> [\<lparr>Key = ''amy'', Channel = 0, Expiration = 3600000000000\<rparr>],
             ''bob'' \<mapsto> [\<lparr>Key = ''bob'', Channel = 1, Expiration = 3600000000005\<rparr>]],
           nextChan := 2, incomingEvents := []\<rparr>)))"
proof -
  let ?e = "\<lparr>Event.Key = ''bob'', Data = Some (7::nat), Error = None\<rparr>"
  have h: "''amy'' \<noteq> Event.Key ?e" by simp
  show ?thesis
    using reach_amy_bob h key_isolation [OF reach_amy_bob h, of 10 "[]"]
    by (simp add: slice_at_def)
qed

subsection \<open>After termination\<close>

text \<open>
  C6. Once \<open>terminated\<close> is set, \<^verbatim>\<open>WaitTTL\<close> (and \<^verbatim>\<open>Wait\<close>) queues no listener: it
  returns a new channel on which a goroutine sends the event with error
  \<^verbatim>\<open>ErrLoopTerminated\<close>, and changes nothing else; \<^verbatim>\<open>Send\<close> returns at once with
  the state as it was. The flag is set by the loop on the termination signal, stays set
  in the states these calls return, and holds whenever \<^verbatim>\<open>run\<close> has returned
  (\<open>reach_Returned_terminated\<close>).
\<close>

theorem after_termination:
  assumes "terminated l"
  shows "WaitTTL now key ttl l =
           Some (nextChan l, l\<lparr>nextChan := Suc (nextChan l),
                               spawned := spawned l @ [(nextChan l, loop_terminated key)]\<rparr>)
       \<and> Wait now key l =
           Some (nextChan l, l\<lparr>nextChan := Suc (nextChan l),
                               spawned := spawned l @ [(nextChan l, loop_terminated key)]\<rparr>)
       \<and> Send e l = Some l"
  using assms by (simp add: Wait_def WaitTTL_def Send_def go_send_def loop_terminated_def)

theorem after_termination_witness:
  "terminated ((New :: nat Loop)\<lparr>terminated := True\<rparr>)
   \<and> WaitTTL 5 ''bob'' millisecond ((New :: nat Loop)\<lparr>terminated := True\<rparr>)
     = Some (0, (New :: nat Loop)\<lparr>terminated := True, nextChan := 1,
                  spawned := [(0, \<lparr>Event.Key = ''bob'', Data = None, Error = Some ErrLoopTerminated\<rparr>)]\<rparr>)
   \<and> Send \<lparr>Event.Key = ''bob'', Data = Some (7::nat), Error = None\<rparr> ((New :: nat Loop)\<lparr>terminated := True\<rparr>)
     = Some ((New :: nat Loop)\<lparr>terminated := True\<rparr>)"
proof -
  have h: "terminated ((New :: nat Loop)\<lparr>terminated := True\<rparr>)" by simp
  have n: "nextChan (New :: nat Loop) = 0" "spawned (New :: nat Loop) = []"
    by (simp_all add: New_def NewCustom_def)
  show ?thesis
    using h after_termination [OF h, of 5 "''bob''" millisecond "\<lparr>Event.Key = ''bob'', Data = Some (7::nat), Error = None\<rparr>"]
    by (simp add: n loop_terminated_def)
qed

subsection \<open>At most one delivery\<close>

text \<open>
  What holds of the code in every state that a sequence of calls and loop steps can
  reach: no channel has two senders; and while the loop runs, nothing has been sent on
  the channel of a listener that is still in the map, so event processing and sweeps
  remove every listener they notify.
\<close>

theorem at_most_one_delivery:
  assumes "reach st l"
  shows "distinct (map fst (spawned l))
       \<and> (st = Looping \<longrightarrow> (\<forall>k s. listenerMap l k = Some s \<longrightarrow> chans s \<inter> sent_on l = {}))"
  using reach_inv [OF assms] by (simp add: inv_def waiting_ok_def)

theorem at_most_one_delivery_witness:
  "reach Looping ((New :: nat Loop)\<lparr>listenerMap := [''amy'' \<mapsto> [\<lparr>Key = ''amy'', Channel = 0, Expiration = 3600000000000\<rparr>]],
     nextChan := 2,
     spawned := [(1, \<lparr>Event.Key = ''bob'', Data = Some 7, Error = None\<rparr>)]\<rparr>)
   \<and> distinct (map fst [(1::nat, \<lparr>Event.Key = ''bob'', Data = Some (7::nat), Error = None\<rparr>)])
   \<and> chans [\<lparr>Key = ''amy'', Channel = 0, Expiration = 3600000000000\<rparr>]
       \<inter> sent_on ((New :: nat Loop)\<lparr>listenerMap := [''amy'' \<mapsto> [\<lparr>Key = ''amy'', Channel = 0, Expiration = 3600000000000\<rparr>]],
     nextChan := 2,
     spawned := [(1, \<lparr>Event.Key = ''bob'', Data = Some 7, Error = None\<rparr>)]\<rparr>) = {}"
  using reach_amy_waiting at_most_one_delivery [OF reach_amy_waiting] by simp

text \<open>
  C5. No endpoint should ever be sent more than one event, because every step that
  notifies a listener also removes it from the map. The flush does not remove what it
  notifies: with one listener under \<^verbatim>\<open>"bob"\<close>, \<^verbatim>\<open>terminate\<close> starts the send on
  channel 0, replaces the slice by \<^verbatim>\<open>append(s[:0], s[:1]...)\<close>, which is the slice
  again, and returns with that listener still in the map, so the map is not pruned
  either. (\<^verbatim>\<open>cleanup\<close> has \<^verbatim>\<open>s[i+1:]\<close> in that place.)
\<close>

theorem flush_keeps_delivered_listener:
  "terminate [''bob'']
     ((New :: unit Loop)\<lparr>listenerMap := [''bob'' \<mapsto> [\<lparr>Key = ''bob'', Channel = 0, Expiration = 100\<rparr>]],
       terminated := True, nextChan := 1\<rparr>)
   = Inr ((New :: unit Loop)\<lparr>listenerMap := [''bob'' \<mapsto> [\<lparr>Key = ''bob'', Channel = 0, Expiration = 100\<rparr>]],
       terminated := True, nextChan := 1,
       spawned := [(0, \<lparr>Event.Key = ''bob'', Data = None, Error = Some ErrLoopTerminated\<rparr>)]\<rparr>)
   \<and> 0 \<in> sent_on ((New :: unit Loop)\<lparr>listenerMap := [''bob'' \<mapsto> [\<lparr>Key = ''bob'', Channel = 0, Expiration = 100\<rparr>]],
       terminated := True, nextChan := 1,
       spawned := [(0, \<lparr>Event.Key = ''bob'', Data = None, Error = Some ErrLoopTerminated\<rparr>)]\<rparr>)
   \<and> 0 \<in> chans (slice_at ((New :: unit Loop)\<lparr>listenerMap := [''bob'' \<mapsto> [\<lparr>Key = ''bob'', Channel = 0, Expiration = 100\<rparr>]],
       terminated := True, nextChan := 1,
       spawned := [(0, \<lparr>Event.Key = ''bob'', Data = None, Error = Some ErrLoopTerminated\<rparr>)]\<rparr>) ''bob'')"
  by (simp add: New_def NewCustom_def terminate_key_def terminate_step_def slice_at_def
      and_then_def go_send_def prune_def upt_rec sent_on_def chans_def)

end
